theory Spec2Isabelle
  imports Complex_Main
begin

section \<open>The cache of \<^verbatim>\<open>src/index.ts\<close>: LRU order, TTL expiry, memory budget\<close>

text \<open>
  The class \<^verbatim>\<open>Cache\<close> keeps five private fields and hands work to the event loop through
  \<^verbatim>\<open>setImmediate\<close> and \<^verbatim>\<open>setTimeout\<close>. The embedding threads one record through every
  method: the private fields of the instance, followed by the part of the event loop the
  instance talks to (the queue of immediates it has posted, the table of armed timeouts
  and the counter that names the next timeout handle). \<^verbatim>\<open>Date.now()\<close> is an argument
  \<open>now\<close> of every method that reads the clock; one synchronous call reads one instant.
\<close>

subsection \<open>Numbers\<close>

text \<open>
  A JavaScript \<^verbatim>\<open>number\<close> is modelled as a finite value or \<^verbatim>\<open>Infinity\<close>. Clock readings and
  TTLs are whole milliseconds (\<open>int number\<close>); limits and byte counts are rationals
  (\<open>rat number\<close>), on which scaling by \<open>1024\<^sup>2\<close>, a power of two, is exact as it is on
  doubles. \<^verbatim>\<open>NaN\<close> and \<^verbatim>\<open>-Infinity\<close> are outside the model.
\<close>

datatype 'a number = Fin 'a | PInf

text \<open>\<^verbatim>\<open>a < b\<close> on numbers.\<close>

fun lt :: "'a::linorder number \<Rightarrow> 'a number \<Rightarrow> bool" where
  "lt (Fin a) (Fin b) = (a < b)"
| "lt (Fin a) PInf = True"
| "lt PInf b = False"

text \<open>\<^verbatim>\<open>a + b\<close> on numbers.\<close>

fun plus_number :: "'a::plus number \<Rightarrow> 'a number \<Rightarrow> 'a number" where
  "plus_number (Fin a) (Fin b) = Fin (a + b)"
| "plus_number (Fin a) PInf = PInf"
| "plus_number PInf b = PInf"

text \<open>\<^verbatim>\<open>a * 1024 ** 2\<close> and \<^verbatim>\<open>a / 1024 ** 2\<close>; \<^verbatim>\<open>Infinity\<close> stays \<^verbatim>\<open>Infinity\<close>.\<close>

definition toMegabytes :: rat where
  "toMegabytes = 1024 ^ 2"

fun times_bytes :: "rat number \<Rightarrow> rat number" where
  "times_bytes (Fin a) = Fin (a * toMegabytes)"
| "times_bytes PInf = PInf"

fun div_bytes :: "rat number \<Rightarrow> rat number" where
  "div_bytes (Fin a) = Fin (a / toMegabytes)"
| "div_bytes PInf = PInf"

subsection \<open>Values and their estimated size\<close>

text \<open>
  The values a caller can store, by the cases \<^verbatim>\<open>measureSize\<close> tells apart. A buffer or
  view carries its \<^verbatim>\<open>byteLength\<close>, a string its UTF-8 bytes, an object the text
  \<^verbatim>\<open>JSON.stringify\<close> gives for it (\<open>None\<close> when that throws or gives no text).
\<close>

datatype jsvalue =
    VBuffer nat
  | VString string
  | VNumber "rat number"
  | VBoolean bool
  | VBigInt int
  | VObject "string option"
  | VUndefined
  | VSymbol
  | VFunction

text \<open>The length of \<^verbatim>\<open>value.toString(2)\<close> for a non-zero bigint: its binary digits, and
  the sign of a negative one.\<close>

fun binary_digits :: "nat \<Rightarrow> nat" where
  "binary_digits n = (if n = 0 then 0 else Suc (binary_digits (n div 2)))"

definition toString2_length :: "int \<Rightarrow> nat" where
  "toString2_length v = binary_digits (nat \<bar>v\<bar>) + (if v < 0 then 1 else 0)"

fun measureSize :: "jsvalue \<Rightarrow> nat" where
  "measureSize (VBuffer byteLength) = byteLength"
| "measureSize (VString s) = length s"
| "measureSize (VNumber x) = 8"
| "measureSize (VBoolean b) = 4"
| "measureSize (VBigInt v) = ((if v = 0 then 1 else toString2_length v) + 7) div 8 + 8"
| "measureSize (VObject (Some json)) = length json"
| "measureSize (VObject None) = 0"
| "measureSize VUndefined = 0"
| "measureSize VSymbol = 0"
| "measureSize VFunction = 0"

subsection \<open>The entry store: a \<^verbatim>\<open>Map\<close> in insertion order\<close>

record CacheEntry =
  size_bytes :: nat
  stored :: jsvalue
  expiresAt :: "int number"

text \<open>
  A \<^verbatim>\<open>Map\<close> is the list of its (key, entry) pairs in iteration order. \<^verbatim>\<open>Map.set\<close> on a
  key already present keeps the key's position; on a new key it appends.
\<close>

type_synonym 'k store = "('k \<times> CacheEntry) list"

definition map_get :: "'k store \<Rightarrow> 'k \<Rightarrow> CacheEntry option" where
  "map_get m k = map_of m k"

definition map_delete :: "'k \<Rightarrow> 'k store \<Rightarrow> 'k store" where
  "map_delete k m = filter (\<lambda>p. fst p \<noteq> k) m"

definition map_set :: "'k \<Rightarrow> CacheEntry \<Rightarrow> 'k store \<Rightarrow> 'k store" where
  "map_set k e m =
     (if k \<in> fst ` set m then map (\<lambda>p. if fst p = k then (k, e) else p) m
      else m @ [(k, e)])"

definition keys :: "'k store \<Rightarrow> 'k list" where
  "keys m = map fst m"

subsection \<open>The expiry index: an ordered tree of buckets\<close>

text \<open>
  \<^verbatim>\<open>functional-red-black-tree\<close> is a persistent ordered map; it is represented by the
  list of its nodes in ascending key order, so that \<^verbatim>\<open>tree.begin\<close> is the head. A bucket
  is a \<^verbatim>\<open>Set\<close> of keys, the list of its members in insertion order.
\<close>

type_synonym 'k tree = "(int \<times> 'k list) list"

fun tree_get :: "'k tree \<Rightarrow> int \<Rightarrow> 'k list option" where
  "tree_get [] t = None"
| "tree_get ((t', ks) # rest) t = (if t' = t then Some ks else tree_get rest t)"

fun tree_insert :: "int \<Rightarrow> 'k list \<Rightarrow> 'k tree \<Rightarrow> 'k tree" where
  "tree_insert t ks [] = [(t, ks)]"
| "tree_insert t ks ((t', ks') # rest) =
     (if t < t' then (t, ks) # (t', ks') # rest else (t', ks') # tree_insert t ks rest)"

fun tree_remove :: "int \<Rightarrow> 'k tree \<Rightarrow> 'k tree" where
  "tree_remove t [] = []"
| "tree_remove t ((t', ks) # rest) = (if t' = t then rest else (t', ks) # tree_remove t rest)"

text \<open>A bucket is a shared mutable \<^verbatim>\<open>Set\<close>: changing it changes the node that holds it.\<close>

fun tree_put :: "int \<Rightarrow> 'k list \<Rightarrow> 'k tree \<Rightarrow> 'k tree" where
  "tree_put t ks [] = []"
| "tree_put t ks ((t', ks') # rest) =
     (if t' = t then (t', ks) # rest else (t', ks') # tree_put t ks rest)"

definition set_add :: "'k \<Rightarrow> 'k list \<Rightarrow> 'k list" where
  "set_add k ks = (if k \<in> set ks then ks else ks @ [k])"

definition set_delete :: "'k \<Rightarrow> 'k list \<Rightarrow> 'k list" where
  "set_delete k ks = filter (\<lambda>k'. k' \<noteq> k) ks"

subsection \<open>The instance and the event loop\<close>

datatype 'k task = PruneTask | AddTTLTask 'k int

record 'k cache =
  maxItems :: "rat number"
  ttl :: "int number"
  data :: "'k store"
  memory_current :: rat
  memory_max :: "rat number"
  timeout_id :: "nat option"
  timeout_tree :: "'k tree"
  timeout_timestamp :: "int number"
  noPruneScheduled :: bool
  immediates :: "'k task list"
  timers :: "(nat \<times> int) list"
  next_handle :: nat

record CacheOptions =
  opt_ttl :: "int number option"
  opt_maxItems :: "rat number option"
  opt_maxMemoryInMb :: "rat number option"

datatype error = ConfigurationError string

text \<open>The field initialisers followed by the constructor's body. An option left out
  takes its default, \<^verbatim>\<open>Infinity\<close>.\<close>

definition default_Infinity :: "'a number option \<Rightarrow> 'a number" where
  "default_Infinity x = (case x of None \<Rightarrow> PInf | Some v \<Rightarrow> v)"

definition Cache :: "CacheOptions \<Rightarrow> 'k cache" where
  "Cache opts =
     \<lparr> maxItems = default_Infinity (opt_maxItems opts),
       ttl = default_Infinity (opt_ttl opts),
       data = [],
       memory_current = 0,
       memory_max = times_bytes (default_Infinity (opt_maxMemoryInMb opts)),
       timeout_id = None,
       timeout_tree = [],
       timeout_timestamp = PInf,
       noPruneScheduled = True,
       immediates = [],
       timers = [],
       next_handle = 0 \<rparr>"

text \<open>\<^verbatim>\<open>new Cache(options)\<close> as the caller sees it: the constructor has no \<^verbatim>\<open>throw\<close>, so
  every call returns an instance.\<close>

definition new_Cache :: "CacheOptions \<Rightarrow> error + 'k cache" where
  "new_Cache opts = Inr (Cache opts)"

subsection \<open>Timers\<close>

definition clearTimeout :: "nat option \<Rightarrow> 'k cache \<Rightarrow> 'k cache" where
  "clearTimeout h c =
     (case h of None \<Rightarrow> c
      | Some i \<Rightarrow> c\<lparr>timers := filter (\<lambda>p. fst p \<noteq> i) (timers c)\<rparr>)"

text \<open>\<^verbatim>\<open>tree.begin.key || Infinity\<close>: an empty tree has no first key, and the key \<open>0\<close> is
  falsy too.\<close>

definition begin_key_or_Infinity :: "'k tree \<Rightarrow> int number" where
  "begin_key_or_Infinity tr =
     (case tr of [] \<Rightarrow> PInf | (t, ks) # rest \<Rightarrow> if t = 0 then PInf else Fin t)"

definition scheduleNextTimer :: "int \<Rightarrow> 'k cache \<Rightarrow> 'k cache" where
  "scheduleNextTimer now c =
     (let c1 = (if timeout_id c \<noteq> None then clearTimeout (timeout_id c) c else c);
          c2 = c1\<lparr>timeout_timestamp := begin_key_or_Infinity (timeout_tree c1)\<rparr>
      in case timeout_timestamp c2 of
           PInf \<Rightarrow> c2
         | Fin t \<Rightarrow>
             c2\<lparr>timeout_id := Some (next_handle c2),
                timers := timers c2 @ [(next_handle c2, now + max (t - now) 0)],
                next_handle := Suc (next_handle c2)\<rparr>)"

subsection \<open>The public methods\<close>

definition delete :: "'k \<Rightarrow> int \<Rightarrow> 'k cache \<Rightarrow> 'k cache" where
  "delete key now c =
     (case map_get (data c) key of
        None \<Rightarrow> c
      | Some entry \<Rightarrow>
          (let c1 = c\<lparr>data := map_delete key (data c),
                      memory_current := memory_current c - of_nat (size_bytes entry)\<rparr>
           in case expiresAt entry of
                PInf \<Rightarrow> c1
              | Fin t \<Rightarrow>
                  (case tree_get (timeout_tree c1) t of
                     None \<Rightarrow> c1
                   | Some keysToExpire \<Rightarrow>
                       if length keysToExpire = 1 then
                         (let c2 = c1\<lparr>timeout_tree := tree_remove t (timeout_tree c1)\<rparr>
                          in if Fin t = timeout_timestamp c2
                             then scheduleNextTimer now c2 else c2)
                       else
                         c1\<lparr>timeout_tree :=
                              tree_put t (set_delete key keysToExpire) (timeout_tree c1)\<rparr>)))"

definition set_cache :: "'k \<Rightarrow> jsvalue \<Rightarrow> int number option \<Rightarrow> int \<Rightarrow> 'k cache \<Rightarrow> 'k cache" where
  "set_cache key v ttl_arg now c =
     (let ttl' = (case ttl_arg of None \<Rightarrow> ttl c | Some t \<Rightarrow> t);
          c1 = delete key now c;
          sz = measureSize v;
          expires = plus_number (Fin now) ttl';
          c2 = c1\<lparr>data := map_set key \<lparr>size_bytes = sz, stored = v, expiresAt = expires\<rparr> (data c1),
                   memory_current := memory_current c1 + of_nat sz\<rparr>;
          c3 = (if noPruneScheduled c2 \<and>
                   (lt (maxItems c2) (Fin (of_nat (length (data c2)))) \<or>
                    lt (memory_max c2) (Fin (memory_current c2)))
                then c2\<lparr>noPruneScheduled := False, immediates := immediates c2 @ [PruneTask]\<rparr>
                else c2)
      in case expires of
           PInf \<Rightarrow> c3
         | Fin t \<Rightarrow> c3\<lparr>immediates := immediates c3 @ [AddTTLTask key t]\<rparr>)"

definition get :: "'k \<Rightarrow> int \<Rightarrow> 'k cache \<Rightarrow> jsvalue option \<times> 'k cache" where
  "get key now c =
     (case map_get (data c) key of
        None \<Rightarrow> (None, c)
      | Some entry \<Rightarrow>
          if lt (Fin now) (expiresAt entry)
          then (Some (stored entry), c\<lparr>data := map_set key entry (map_delete key (data c))\<rparr>)
          else (None, c))"

definition has :: "'k \<Rightarrow> int \<Rightarrow> 'k cache \<Rightarrow> bool" where
  "has key now c =
     (case map_get (data c) key of
        None \<Rightarrow> False
      | Some entry \<Rightarrow> lt (Fin now) (expiresAt entry))"

definition clear :: "'k cache \<Rightarrow> 'k cache" where
  "clear c =
     (clearTimeout (timeout_id c) c)
       \<lparr>data := [], memory_current := 0,
        timeout_id := None, timeout_tree := [], timeout_timestamp := PInf\<rparr>"

definition size_cache :: "'k cache \<Rightarrow> nat" where
  "size_cache c = length (data c)"

record MemoryStats =
  current :: rat
  maximum :: "rat number"

text \<open>The \<^verbatim>\<open>memory\<close> getter of \<^verbatim>\<open>src/src/index.ts\<close> (and of the build in \<^verbatim>\<open>dist\<close>): both counts
  divided by \<^verbatim>\<open>1024 ** 2\<close>.\<close>

definition memory :: "'k cache \<Rightarrow> MemoryStats" where
  "memory c =
     \<lparr> current = memory_current c / toMegabytes,
       maximum = div_bytes (memory_max c) \<rparr>"

text \<open>
  The \<^verbatim>\<open>memory\<close> getter of \<^verbatim>\<open>src/index.js\<close> and of \<^verbatim>\<open>src/unnamed/part_000\<close>:
  \<^verbatim>\<open>return { ...this.#memory }\<close>, a copy of the private record. \<^verbatim>\<open>src/index.js\<close> is the class
  of \<^verbatim>\<open>src/src/index.ts\<close> without its type annotations in every other member, so the
  states it reaches are those of \<open>run\<close>.
\<close>

definition memory_index_js :: "'k cache \<Rightarrow> MemoryStats" where
  "memory_index_js c =
     \<lparr> current = memory_current c,
       maximum = memory_max c \<rparr>"

subsection \<open>The deferred tasks\<close>

text \<open>
  The loop of \<^verbatim>\<open>#prune\<close> walks the keys of the live \<^verbatim>\<open>Map\<close> from the oldest and deletes the
  key it stands on, so at each turn the entries still stored are the current one and
  those after it: the recursion runs on that remainder, whose length is \<^verbatim>\<open>data.size\<close>.
\<close>

fun prune_loop :: "rat number \<Rightarrow> rat number \<Rightarrow> 'k store \<Rightarrow> rat \<Rightarrow> 'k store \<times> rat" where
  "prune_loop mi mm [] cur = ([], cur)"
| "prune_loop mi mm ((key, entry) # rest) cur =
     (if lt (Fin (of_nat (length ((key, entry) # rest)))) mi \<and> lt (Fin cur) mm
      then ((key, entry) # rest, cur)
      else prune_loop mi mm rest (cur - of_nat (size_bytes entry)))"

definition prune :: "'k cache \<Rightarrow> 'k cache" where
  "prune c =
     (let c1 = c\<lparr>noPruneScheduled := True\<rparr>;
          r = prune_loop (maxItems c1) (memory_max c1) (data c1) (memory_current c1)
      in c1\<lparr>data := fst r, memory_current := snd r\<rparr>)"

definition addTTL :: "'k \<Rightarrow> int \<Rightarrow> int \<Rightarrow> 'k cache \<Rightarrow> 'k cache" where
  "addTTL key expires now c =
     (let tr = (case tree_get (timeout_tree c) expires of
                  None \<Rightarrow> tree_insert expires [] (timeout_tree c)
                | Some keysExpiring \<Rightarrow> timeout_tree c);
          keysExpiring = (case tree_get (timeout_tree c) expires of
                            None \<Rightarrow> []
                          | Some ks \<Rightarrow> ks);
          c1 = c\<lparr>timeout_tree := tree_put expires (set_add key keysExpiring) tr\<rparr>
      in if lt (Fin expires) (timeout_timestamp c1) then scheduleNextTimer now c1 else c1)"

text \<open>The inner loop of \<^verbatim>\<open>#onKeyExpired\<close>: each key of a due bucket leaves the store if it
  is there.\<close>

fun reap :: "'k list \<Rightarrow> 'k store \<Rightarrow> rat \<Rightarrow> 'k store \<times> rat" where
  "reap [] d cur = (d, cur)"
| "reap (key # ks) d cur =
     (case map_get d key of
        None \<Rightarrow> reap ks d cur
      | Some entry \<Rightarrow> reap ks (map_delete key d) (cur - of_nat (size_bytes entry)))"

text \<open>The outer loop: while the smallest timestamp is due, reap its bucket and remove
  the node.\<close>

fun expire_loop :: "int \<Rightarrow> 'k tree \<Rightarrow> 'k store \<Rightarrow> rat \<Rightarrow> 'k tree \<times> 'k store \<times> rat" where
  "expire_loop now [] d cur = ([], d, cur)"
| "expire_loop now ((t, keysToExpire) # rest) d cur =
     (if t \<le> now
      then (case reap keysToExpire d cur of (d', cur') \<Rightarrow> expire_loop now rest d' cur')
      else ((t, keysToExpire) # rest, d, cur))"

definition onKeyExpired :: "int \<Rightarrow> 'k cache \<Rightarrow> 'k cache" where
  "onKeyExpired now c =
     (let c1 = c\<lparr>timeout_id := None\<rparr>;
          r = expire_loop now (timeout_tree c1) (data c1) (memory_current c1);
          c2 = c1\<lparr>timeout_tree := fst r, data := fst (snd r), memory_current := snd (snd r)\<rparr>
      in if timeout_tree c2 \<noteq> [] then scheduleNextTimer now c2 else c2)"

subsection \<open>The event loop\<close>

text \<open>
  One turn of the loop is a public call, the oldest posted immediate, or the timer
  phase at an instant \<open>now\<close>, which fires the first armed timeout that is due.
\<close>

definition run_immediate :: "int \<Rightarrow> 'k cache \<Rightarrow> 'k cache" where
  "run_immediate now c =
     (case immediates c of
        [] \<Rightarrow> c
      | PruneTask # q \<Rightarrow> prune (c\<lparr>immediates := q\<rparr>)
      | AddTTLTask k t # q \<Rightarrow> addTTL k t now (c\<lparr>immediates := q\<rparr>))"

definition run_timers :: "int \<Rightarrow> 'k cache \<Rightarrow> 'k cache" where
  "run_timers now c =
     (case filter (\<lambda>p. snd p \<le> now) (timers c) of
        [] \<Rightarrow> c
      | (h, due) # later \<Rightarrow>
          onKeyExpired now (c\<lparr>timers := filter (\<lambda>p. fst p \<noteq> h) (timers c)\<rparr>))"

datatype 'k event =
    Set 'k jsvalue "int number option" int
  | Get 'k int
  | Has 'k int
  | Delete 'k int
  | Clear
  | Immediate int
  | Timers int

fun step :: "'k event \<Rightarrow> 'k cache \<Rightarrow> 'k cache" where
  "step (Set k v t now) c = set_cache k v t now c"
| "step (Get k now) c = snd (get k now c)"
| "step (Has k now) c = c"
| "step (Delete k now) c = delete k now c"
| "step Clear c = clear c"
| "step (Immediate now) c = run_immediate now c"
| "step (Timers now) c = run_timers now c"

fun run :: "'k event list \<Rightarrow> 'k cache \<Rightarrow> 'k cache" where
  "run [] c = c"
| "run (e # es) c = run es (step e c)"

subsection \<open>Invariants of the instance\<close>

text \<open>The bytes the stored entries add up to, which \<^verbatim>\<open>#memory.current\<close> is meant to track.\<close>

definition stored_bytes :: "'k store \<Rightarrow> nat" where
  "stored_bytes m = sum_list (map (\<lambda>p. size_bytes (snd p)) m)"

definition store_ok :: "'k cache \<Rightarrow> bool" where
  "store_ok c = (distinct (keys (data c)) \<and> memory_current c = of_nat (stored_bytes (data c)))"

text \<open>Whatever timeout is armed is the one \<^verbatim>\<open>#timeout.id\<close> names.\<close>

definition timers_ok :: "'k cache \<Rightarrow> bool" where
  "timers_ok c = (timers c = [] \<or> (\<exists>h d. timers c = [(h, d)] \<and> timeout_id c = Some h))"

subsection \<open>Recency order, as the specification words it\<close>

text \<open>
  A key is touched by every \<^verbatim>\<open>set\<close> of it and by every \<^verbatim>\<open>get\<close> of it that returns a value.
  \<open>touches es c\<close> lists the keys touched while the events \<open>es\<close> run from state \<open>c\<close>, in
  the order of the touches.
\<close>

fun touched :: "'k event \<Rightarrow> 'k cache \<Rightarrow> 'k list" where
  "touched (Set k v t now) c = [k]"
| "touched (Get k now) c = (case fst (get k now c) of None \<Rightarrow> [] | Some v \<Rightarrow> [k])"
| "touched (Has k now) c = []"
| "touched (Delete k now) c = []"
| "touched Clear c = []"
| "touched (Immediate now) c = []"
| "touched (Timers now) c = []"

fun touches :: "'k event list \<Rightarrow> 'k cache \<Rightarrow> 'k list" where
  "touches [] c = []"
| "touches (e # es) c = touched e c @ touches es (step e c)"

text \<open>Recency order, oldest first: each key once, placed by its last touch.\<close>

definition recency_order :: "'k list \<Rightarrow> 'k list" where
  "recency_order ts = remdups ts"

subsection \<open>Invariants of the expiry index\<close>

text \<open>The nodes of the tree are in strictly ascending key order.\<close>

definition tree_ok :: "'k tree \<Rightarrow> bool" where
  "tree_ok tr = sorted_wrt (<) (map fst tr)"


definition in_bucket :: "'k tree \<Rightarrow> int \<Rightarrow> 'k \<Rightarrow> bool" where
  "in_bucket tr t k = (case tree_get tr t of None \<Rightarrow> False | Some ks \<Rightarrow> k \<in> set ks)"





section \<open>Properties\<close>

subsection \<open>One armed timeout at most\<close>

lemma scheduleNextTimer_fields [simp]:
  "data (scheduleNextTimer now c) = data c"
  "memory_current (scheduleNextTimer now c) = memory_current c"
  "memory_max (scheduleNextTimer now c) = memory_max c"
  "maxItems (scheduleNextTimer now c) = maxItems c"
  "ttl (scheduleNextTimer now c) = ttl c"
  "timeout_tree (scheduleNextTimer now c) = timeout_tree c"
  "immediates (scheduleNextTimer now c) = immediates c"
  "noPruneScheduled (scheduleNextTimer now c) = noPruneScheduled c"
  by (simp_all add: scheduleNextTimer_def clearTimeout_def Let_def split: number.splits option.splits)

lemma scheduleNextTimer_timers_ok: "timers_ok c \<Longrightarrow> timers_ok (scheduleNextTimer now c)"
  by (auto simp: timers_ok_def scheduleNextTimer_def clearTimeout_def Let_def
           split: number.splits option.splits)

lemma delete_timers_ok: "timers_ok c \<Longrightarrow> timers_ok (delete key now c)"
proof -
  assume ok: "timers_ok c"
  have upd: "\<And>f g. timers_ok (c\<lparr>data := f, memory_current := g\<rparr>)"
    using ok by (simp add: timers_ok_def)
  have upd2: "\<And>f g t. timers_ok (c\<lparr>data := f, memory_current := g, timeout_tree := t\<rparr>)"
    using ok by (simp add: timers_ok_def)
  show ?thesis
    unfolding delete_def Let_def
    by (auto split: option.splits number.splits intro!: scheduleNextTimer_timers_ok upd upd2 simp: ok)
qed

lemma set_cache_timers_ok: "timers_ok c \<Longrightarrow> timers_ok (set_cache key v t now c)"
proof -
  assume "timers_ok c"
  then have "timers_ok (delete key now c)" by (rule delete_timers_ok)
  then show ?thesis
    unfolding set_cache_def Let_def
    by (auto simp: timers_ok_def split: number.splits)
qed

lemma get_timers_ok: "timers_ok c \<Longrightarrow> timers_ok (snd (get key now c))"
  by (auto simp: get_def timers_ok_def split: option.splits)

lemma clear_timers_ok: "timers_ok c \<Longrightarrow> timers_ok (clear c)"
  by (auto simp: clear_def timers_ok_def clearTimeout_def split: option.splits)

lemma prune_timers_ok: "timers_ok c \<Longrightarrow> timers_ok (prune c)"
  by (auto simp: prune_def timers_ok_def Let_def)

lemma addTTL_timers_ok: "timers_ok c \<Longrightarrow> timers_ok (addTTL key t now c)"
proof -
  assume ok: "timers_ok c"
  have upd: "\<And>t. timers_ok (c\<lparr>timeout_tree := t\<rparr>)"
    using ok by (simp add: timers_ok_def)
  show ?thesis
    unfolding addTTL_def Let_def
    by (auto intro!: scheduleNextTimer_timers_ok upd)
qed

lemma onKeyExpired_timers_ok: "timers c = [] \<Longrightarrow> timers_ok (onKeyExpired now c)"
proof -
  assume e: "timers c = []"
  have upd: "\<And>i t d m. timers_ok (c\<lparr>timeout_id := i, timeout_tree := t, data := d, memory_current := m\<rparr>)"
    using e by (simp add: timers_ok_def)
  show ?thesis
    unfolding onKeyExpired_def Let_def
    by (auto intro!: scheduleNextTimer_timers_ok upd)
qed

lemma run_immediate_timers_ok: "timers_ok c \<Longrightarrow> timers_ok (run_immediate now c)"
proof -
  assume ok: "timers_ok c"
  have upd: "\<And>q. timers_ok (c\<lparr>immediates := q\<rparr>)"
    using ok by (simp add: timers_ok_def)
  show ?thesis
    unfolding run_immediate_def
    by (auto split: list.splits task.splits intro!: prune_timers_ok addTTL_timers_ok upd simp: ok)
qed

lemma run_timers_timers_ok: "timers_ok c \<Longrightarrow> timers_ok (run_timers now c)"
proof -
  assume ok: "timers_ok c"
  show ?thesis
  proof (cases "filter (\<lambda>p. snd p \<le> now) (timers c)")
    case Nil
    then show ?thesis using ok by (simp add: run_timers_def)
  next
    case (Cons p ps)
    obtain h due where p: "p = (h, due)" by (cases p)
    from Cons ok have "timers c \<noteq> []" by auto
    with ok obtain h' d where t: "timers c = [(h', d)]" by (auto simp: timers_ok_def)
    with Cons p have "h' = h" by (auto split: if_splits)
    with t have "timers (c\<lparr>timers := filter (\<lambda>p. fst p \<noteq> h) (timers c)\<rparr>) = []" by simp
    then have "timers_ok (onKeyExpired now (c\<lparr>timers := filter (\<lambda>p. fst p \<noteq> h) (timers c)\<rparr>))"
      by (rule onKeyExpired_timers_ok)
    then show ?thesis using Cons p by (simp add: run_timers_def)
  qed
qed

lemma step_timers_ok: "timers_ok c \<Longrightarrow> timers_ok (step e c)"
  by (cases e) (simp_all add: set_cache_timers_ok get_timers_ok delete_timers_ok clear_timers_ok
      run_immediate_timers_ok run_timers_timers_ok)

lemma run_timers_ok: "timers_ok c \<Longrightarrow> timers_ok (run es c)"
  by (induction es arbitrary: c) (simp_all add: step_timers_ok)

lemma Cache_timers_ok: "timers_ok (Cache opts)"
  by (simp add: timers_ok_def Cache_def)

text \<open>
  C5. In every state an instance can reach, whatever the number of distinct expiry
  timestamps it tracks, at most one timeout is armed: \<^verbatim>\<open>#scheduleNextTimer\<close> cancels the
  handle it holds before it arms another, \<^verbatim>\<open>clear\<close> cancels it, and \<^verbatim>\<open>#onKeyExpired\<close> runs
  when the one armed timeout has fired and so is spent.
\<close>

theorem single_timer: "length (timers (run es (Cache opts))) \<le> 1"
  using run_timers_ok [OF Cache_timers_ok, of es opts] by (auto simp: timers_ok_def)

subsection \<open>The store has one entry per key and the counter is their total size\<close>

lemma keys_simps [simp]:
  "keys [] = []" "keys (p # m) = fst p # keys m" "keys (m @ m') = keys m @ keys m'"
  by (simp_all add: keys_def)

lemma stored_bytes_simps [simp]:
  "stored_bytes [] = 0" "stored_bytes (p # m) = size_bytes (snd p) + stored_bytes m"
  "stored_bytes (m @ m') = stored_bytes m + stored_bytes m'"
  by (simp_all add: stored_bytes_def)

lemma map_get_simps [simp]:
  "map_get [] k = None" "map_get (p # m) k = (if fst p = k then Some (snd p) else map_get m k)"
  by (cases p; simp add: map_get_def)+

lemma map_delete_simps [simp]:
  "map_delete k [] = []"
  "map_delete k (p # m) = (if fst p = k then map_delete k m else p # map_delete k m)"
  by (simp_all add: map_delete_def)

lemma keys_map_delete: "keys (map_delete k m) = filter (\<lambda>k'. k' \<noteq> k) (keys m)"
  by (induction m) auto

lemma map_get_map_delete: "map_get (map_delete k m) k' = (if k' = k then None else map_get m k')"
  by (induction m) auto

lemma map_get_None_iff: "map_get m k = None \<longleftrightarrow> k \<notin> set (keys m)"
  by (induction m) auto

lemma map_delete_absent: "map_get m k = None \<Longrightarrow> map_delete k m = m"
  by (induction m) (auto split: if_splits)

lemma stored_bytes_map_delete:
  "distinct (keys m) \<Longrightarrow> map_get m k = Some e \<Longrightarrow>
   stored_bytes (map_delete k m) + size_bytes e = stored_bytes m"
proof (induction m)
  case Nil
  then show ?case by (simp add: map_get_def)
next
  case (Cons p m)
  show ?case
  proof (cases "fst p = k")
    case True
    with Cons.prems have "map_get m k = None" "snd p = e"
      by (auto simp: map_get_None_iff)
    then show ?thesis using True
      by (simp add: map_delete_absent)
  next
    case False
    with Cons.prems have "distinct (keys m)" "map_get m k = Some e"
      by auto
    from Cons.IH [OF this] show ?thesis using False
      by simp
  qed
qed

lemma map_set_fresh: "k \<notin> set (keys m) \<Longrightarrow> map_set k e m = m @ [(k, e)]"
  by (simp add: map_set_def keys_def)

lemma map_set_after_delete: "map_set k e (map_delete k m) = map_delete k m @ [(k, e)]"
  by (rule map_set_fresh) (simp add: keys_map_delete)

lemma data_delete: "data (delete key now c) = map_delete key (data c)"
  by (simp add: delete_def Let_def map_delete_absent split: option.splits number.splits)

lemma memory_current_delete:
  "memory_current (delete key now c) =
     memory_current c - (case map_get (data c) key of None \<Rightarrow> 0 | Some e \<Rightarrow> of_nat (size_bytes e))"
  by (simp add: delete_def Let_def split: option.splits number.splits)

lemma delete_store_ok: "store_ok c \<Longrightarrow> store_ok (delete key now c)"
proof -
  assume ok: "store_ok c"
  show ?thesis
  proof (cases "map_get (data c) key")
    case None
    then show ?thesis using ok by (simp add: delete_def)
  next
    case (Some e)
    from ok have d: "distinct (keys (data c))" by (simp add: store_ok_def)
    from stored_bytes_map_delete [OF d Some]
    have "(of_nat (stored_bytes (map_delete key (data c))) :: rat)
            = of_nat (stored_bytes (data c)) - of_nat (size_bytes e)"
      by (metis add_diff_cancel_right' of_nat_add)
    then show ?thesis using ok Some d
      by (simp add: store_ok_def data_delete memory_current_delete keys_map_delete)
  qed
qed

lemma data_set_cache:
  "data (set_cache key v t now c) =
     map_delete key (data c) @
       [(key, \<lparr>size_bytes = measureSize v, stored = v,
               expiresAt = plus_number (Fin now) (case t of None \<Rightarrow> ttl c | Some t' \<Rightarrow> t')\<rparr>)]"
  by (simp add: set_cache_def Let_def data_delete map_set_after_delete split: number.splits)

lemma memory_current_set_cache:
  "memory_current (set_cache key v t now c) =
     memory_current (delete key now c) + of_nat (measureSize v)"
  by (simp add: set_cache_def Let_def split: number.splits)

lemma set_cache_store_ok: "store_ok c \<Longrightarrow> store_ok (set_cache key v t now c)"
proof -
  assume "store_ok c"
  then have "store_ok (delete key now c)" by (rule delete_store_ok)
  then show ?thesis
    by (simp add: store_ok_def data_set_cache memory_current_set_cache data_delete
        keys_map_delete)
qed

lemma get_store_ok: "store_ok c \<Longrightarrow> store_ok (snd (get key now c))"
proof -
  assume ok: "store_ok c"
  show ?thesis
  proof (cases "map_get (data c) key")
    case None
    then show ?thesis using ok by (simp add: get_def)
  next
    case (Some e)
    from ok have d: "distinct (keys (data c))" by (simp add: store_ok_def)
    from stored_bytes_map_delete [OF d Some] ok d Some show ?thesis
      by (auto simp: get_def store_ok_def map_set_after_delete keys_map_delete)
  qed
qed

lemma clear_store_ok: "store_ok (clear c)"
  by (simp add: clear_def store_ok_def clearTimeout_def split: option.splits)

lemma prune_loop_store:
  "distinct (keys m) \<Longrightarrow> cur = of_nat (stored_bytes m) \<Longrightarrow>
   distinct (keys (fst (prune_loop mi mm m cur))) \<and>
   snd (prune_loop mi mm m cur) = of_nat (stored_bytes (fst (prune_loop mi mm m cur)))"
proof (induction mi mm m cur rule: prune_loop.induct)
  case (1 mi mm cur)
  then show ?case by simp
next
  case (2 mi mm key entry rest cur)
  show ?case
  proof (cases "lt (Fin (of_nat (length ((key, entry) # rest)))) mi \<and> lt (Fin cur) mm")
    case True
    then show ?thesis using "2.prems" by simp
  next
    case False
    from "2.prems" have "distinct (keys rest)"
      "cur - of_nat (size_bytes entry) = of_nat (stored_bytes rest)"
      by simp_all
    from "2.IH" [OF False this] show ?thesis using False by auto
  qed
qed

lemma prune_store_ok: "store_ok c \<Longrightarrow> store_ok (prune c)"
  using prune_loop_store [of "data c" "memory_current c" "maxItems c" "memory_max c"]
  by (simp add: store_ok_def prune_def Let_def)

lemma addTTL_store_ok: "store_ok c \<Longrightarrow> store_ok (addTTL key t now c)"
  by (simp add: addTTL_def Let_def store_ok_def)

lemma reap_store:
  "distinct (keys m) \<Longrightarrow> cur = of_nat (stored_bytes m) \<Longrightarrow>
   distinct (keys (fst (reap ks m cur))) \<and>
   snd (reap ks m cur) = of_nat (stored_bytes (fst (reap ks m cur)))"
proof (induction ks arbitrary: m cur)
  case Nil
  then show ?case by simp
next
  case (Cons key ks)
  show ?case
  proof (cases "map_get m key")
    case None
    then show ?thesis using Cons.IH [OF Cons.prems] by simp
  next
    case (Some e)
    from stored_bytes_map_delete [OF Cons.prems(1) Some] Cons.prems(2)
    have "cur - of_nat (size_bytes e) = of_nat (stored_bytes (map_delete key m))"
      by (metis add_diff_cancel_right' of_nat_add)
    moreover from Cons.prems(1) have "distinct (keys (map_delete key m))"
      by (simp add: keys_map_delete)
    ultimately show ?thesis using Cons.IH [of "map_delete key m" "cur - of_nat (size_bytes e)"] Some
      by simp
  qed
qed

lemma expire_loop_store:
  "distinct (keys m) \<Longrightarrow> cur = of_nat (stored_bytes m) \<Longrightarrow>
   distinct (keys (fst (snd (expire_loop now tr m cur)))) \<and>
   snd (snd (expire_loop now tr m cur)) = of_nat (stored_bytes (fst (snd (expire_loop now tr m cur))))"
proof (induction tr arbitrary: m cur)
  case Nil
  then show ?case by simp
next
  case (Cons b tr)
  obtain t ks where b: "b = (t, ks)" by (cases b)
  obtain m' cur' where r: "reap ks m cur = (m', cur')" by (cases "reap ks m cur")
  from reap_store [OF Cons.prems, of ks] r
  have "distinct (keys m')" "cur' = of_nat (stored_bytes m')" by simp_all
  from Cons.IH [OF this] show ?case using b r Cons.prems by simp
qed

lemma onKeyExpired_store_ok: "store_ok c \<Longrightarrow> store_ok (onKeyExpired now c)"
  using expire_loop_store [of "data c" "memory_current c" now "timeout_tree c"]
  by (simp add: store_ok_def onKeyExpired_def Let_def)

lemma run_immediate_store_ok: "store_ok c \<Longrightarrow> store_ok (run_immediate now c)"
proof -
  assume ok: "store_ok c"
  have upd: "\<And>q. store_ok (c\<lparr>immediates := q\<rparr>)"
    using ok by (simp add: store_ok_def)
  show ?thesis
    unfolding run_immediate_def
    by (auto split: list.splits task.splits intro!: prune_store_ok addTTL_store_ok upd simp: ok)
qed

lemma run_timers_store_ok: "store_ok c \<Longrightarrow> store_ok (run_timers now c)"
proof -
  assume ok: "store_ok c"
  have upd: "\<And>q. store_ok (c\<lparr>timers := q\<rparr>)"
    using ok by (simp add: store_ok_def)
  show ?thesis
    unfolding run_timers_def
    by (auto split: list.splits intro!: onKeyExpired_store_ok upd simp: ok)
qed

lemma step_store_ok: "store_ok c \<Longrightarrow> store_ok (step e c)"
  by (cases e) (simp_all add: set_cache_store_ok get_store_ok delete_store_ok clear_store_ok
      run_immediate_store_ok run_timers_store_ok)

lemma run_store_ok: "store_ok c \<Longrightarrow> store_ok (run es c)"
  by (induction es arbitrary: c) (simp_all add: step_store_ok)

lemma Cache_store_ok: "store_ok (Cache opts)"
  by (simp add: store_ok_def Cache_def)

subsection \<open>The configuration never changes\<close>

lemma delete_config:
  "memory_max (delete key now c) = memory_max c"
  "maxItems (delete key now c) = maxItems c"
  "ttl (delete key now c) = ttl c"
  by (simp_all add: delete_def Let_def split: option.splits number.splits)

lemma set_cache_config:
  "memory_max (set_cache key v t now c) = memory_max c"
  "maxItems (set_cache key v t now c) = maxItems c"
  "ttl (set_cache key v t now c) = ttl c"
  by (simp_all add: set_cache_def Let_def delete_config split: number.splits)

lemma get_config:
  "memory_max (snd (get key now c)) = memory_max c"
  "maxItems (snd (get key now c)) = maxItems c"
  "ttl (snd (get key now c)) = ttl c"
  by (simp_all add: get_def split: option.splits)

lemma clear_config:
  "memory_max (clear c) = memory_max c"
  "maxItems (clear c) = maxItems c"
  "ttl (clear c) = ttl c"
  by (simp_all add: clear_def clearTimeout_def split: option.splits)

lemma prune_config:
  "memory_max (prune c) = memory_max c"
  "maxItems (prune c) = maxItems c"
  "ttl (prune c) = ttl c"
  by (simp_all add: prune_def Let_def)

lemma addTTL_config:
  "memory_max (addTTL key t now c) = memory_max c"
  "maxItems (addTTL key t now c) = maxItems c"
  "ttl (addTTL key t now c) = ttl c"
  by (simp_all add: addTTL_def Let_def)

lemma onKeyExpired_config:
  "memory_max (onKeyExpired now c) = memory_max c"
  "maxItems (onKeyExpired now c) = maxItems c"
  "ttl (onKeyExpired now c) = ttl c"
  by (simp_all add: onKeyExpired_def Let_def)

lemma run_immediate_config:
  "memory_max (run_immediate now c) = memory_max c"
  "maxItems (run_immediate now c) = maxItems c"
  "ttl (run_immediate now c) = ttl c"
  by (simp_all add: run_immediate_def prune_config addTTL_config split: list.splits task.splits)

lemma run_timers_config:
  "memory_max (run_timers now c) = memory_max c"
  "maxItems (run_timers now c) = maxItems c"
  "ttl (run_timers now c) = ttl c"
  by (simp_all add: run_timers_def onKeyExpired_config split: list.splits)

lemma step_config:
  "memory_max (step e c) = memory_max c"
  "maxItems (step e c) = maxItems c"
  "ttl (step e c) = ttl c"
  by (cases e; simp add: set_cache_config get_config delete_config clear_config
        run_immediate_config run_timers_config)+

lemma run_config:
  "memory_max (run es c) = memory_max c"
  "maxItems (run es c) = maxItems c"
  "ttl (run es c) = ttl c"
  by (induction es arbitrary: c; simp add: step_config)+

lemma div_times_bytes: "div_bytes (times_bytes x) = x"
  by (cases x) (simp_all add: toMegabytes_def)

text \<open>
  The getter of \<^verbatim>\<open>src/src/index.ts\<close> reports megabytes: in every state its \<open>current\<close> and
  \<open>maximum\<close> are the internal byte counts divided by \<open>1024\<^sup>2\<close> (an unbounded maximum stays
  unbounded). In every state an instance can reach, \<open>maximum\<close> is therefore the
  \<^verbatim>\<open>maxMemoryInMb\<close> that was configured, and \<open>current\<close> times \<open>1024\<^sup>2\<close> is the sum of the stored
  entries' sizes.
\<close>

lemma memory_in_megabytes:
  "current (memory c) = memory_current c / 1024 ^ 2 \<and>
   maximum (memory c) = (case memory_max c of Fin b \<Rightarrow> Fin (b / 1024 ^ 2) | PInf \<Rightarrow> PInf) \<and>
   maximum (memory (run es (Cache opts))) = default_Infinity (opt_maxMemoryInMb opts) \<and>
   current (memory (run es (Cache opts))) * 1024 ^ 2
     = of_nat (stored_bytes (data (run es (Cache opts))))"
proof -
  have a: "current (memory c) = memory_current c / 1024 ^ 2"
    by (simp add: memory_def toMegabytes_def)
  have b: "maximum (memory c) = (case memory_max c of Fin b \<Rightarrow> Fin (b / 1024 ^ 2) | PInf \<Rightarrow> PInf)"
    by (cases "memory_max c") (simp_all add: memory_def toMegabytes_def)
  have "memory_max (run es (Cache opts) :: 'b cache)
          = times_bytes (default_Infinity (opt_maxMemoryInMb opts))"
    by (simp add: run_config) (simp add: Cache_def)
  then have c: "maximum (memory (run es (Cache opts) :: 'b cache))
                  = default_Infinity (opt_maxMemoryInMb opts)"
    by (simp add: memory_def div_times_bytes)
  have "store_ok (run es (Cache opts) :: 'b cache)"
    by (rule run_store_ok [OF Cache_store_ok])
  then have d: "current (memory (run es (Cache opts) :: 'b cache)) * 1024 ^ 2
                  = of_nat (stored_bytes (data (run es (Cache opts) :: 'b cache)))"
    by (simp add: store_ok_def memory_def toMegabytes_def)
  from a b c d show ?thesis by blast
qed

text \<open>
  C8. The claim holds of the getter of \<^verbatim>\<open>src/src/index.ts\<close> and fails of the getter of
  \<^verbatim>\<open>src/index.js\<close> and \<^verbatim>\<open>src/unnamed/part_000\<close>, which returns the byte counts as they are.
  With \<^verbatim>\<open>maxMemoryInMb = 1\<close> and the three-byte string \<^verbatim>\<open>'abc'\<close> stored, that getter gives
  \<open>current = 3\<close> and \<open>max = 1048576\<close>, where megabytes are \<open>3 / 1048576\<close> and \<open>1\<close>, the values
  the getter of \<^verbatim>\<open>src/src/index.ts\<close> gives in the same state.
\<close>

theorem memory_getter_of_index_js_reports_bytes:
  "(let c = run [Set ''k'' (VString ''abc'') None 0]
              (Cache \<lparr>opt_ttl = None, opt_maxItems = None, opt_maxMemoryInMb = Some (Fin 1)\<rparr>)
    in memory_index_js c = \<lparr>current = 3, maximum = Fin 1048576\<rparr>
       \<and> memory c = \<lparr>current = 3 / 1048576, maximum = Fin 1\<rparr>
       \<and> memory_index_js c \<noteq> memory c)"
  by code_simp

subsection \<open>Construction\<close>

text \<open>
  C7, as stated, fails: a configuration whose \<^verbatim>\<open>ttl\<close>, \<^verbatim>\<open>maxItems\<close> and \<^verbatim>\<open>maxMemoryInMb\<close> are all
  \<open>-1\<close> is not rejected. The constructor returns an instance that holds the negative
  values (the memory limit scaled to \<open>-1048576\<close> bytes).
\<close>

theorem negative_configuration_accepted:
  "new_Cache \<lparr>opt_ttl = Some (Fin (- 1)), opt_maxItems = Some (Fin (- 1)),
              opt_maxMemoryInMb = Some (Fin (- 1))\<rparr>
   = (Inr \<lparr>maxItems = Fin (- 1), ttl = Fin (- 1), data = [], memory_current = 0,
           memory_max = Fin (- 1048576), timeout_id = None, timeout_tree = [],
           timeout_timestamp = PInf, noPruneScheduled = True, immediates = [],
           timers = [], next_handle = 0\<rparr> :: error + nat cache)"
  by (simp add: new_Cache_def Cache_def default_Infinity_def toMegabytes_def)

text \<open>
  C7, amended. Construction never fails: for every configuration, negative values
  included, the constructor returns an empty instance that stores \<^verbatim>\<open>ttl\<close> and \<^verbatim>\<open>maxItems\<close>
  as given and \<^verbatim>\<open>maxMemoryInMb\<close> scaled to bytes, with \<^verbatim>\<open>Infinity\<close> for an option left out.
\<close>

theorem construction_never_fails:
  "(new_Cache opts :: error + 'k cache) = Inr (Cache opts) \<and>
   ttl (Cache opts :: 'k cache) = default_Infinity (opt_ttl opts) \<and>
   maxItems (Cache opts :: 'k cache) = default_Infinity (opt_maxItems opts) \<and>
   memory_max (Cache opts :: 'k cache) = times_bytes (default_Infinity (opt_maxMemoryInMb opts)) \<and>
   data (Cache opts :: 'k cache) = [] \<and>
   memory_current (Cache opts :: 'k cache) = 0"
  by (simp add: new_Cache_def Cache_def)

subsection \<open>Pruning stops one entry late\<close>

text \<open>
  C1. With \<^verbatim>\<open>maxItems = 2\<close>, after \<^verbatim>\<open>set(a, X)\<close>, \<^verbatim>\<open>set(b, Y)\<close>, \<^verbatim>\<open>set(c, Z)\<close> the third call posts
  one prune pass. The pass stops only once \<^verbatim>\<open>size < maxItems\<close>, so it evicts \<open>a\<close> and then
  \<open>b\<close> as well: the store is left with one entry, \<open>c\<close>, where two would satisfy the limit.
\<close>

theorem prune_maxItems_2_leaves_one:
  "(let c = run [Set ''a'' (VNumber (Fin 1)) None 0, Set ''b'' (VNumber (Fin 2)) None 0,
                 Set ''c'' (VNumber (Fin 3)) None 0, Immediate 0]
              (Cache \<lparr>opt_ttl = None, opt_maxItems = Some (Fin 2), opt_maxMemoryInMb = None\<rparr>)
    in size_cache c = 1 \<and> has ''a'' 0 c = False \<and> has ''b'' 0 c = False \<and> has ''c'' 0 c = True
       \<and> immediates c = [])"
  by code_simp

subsection \<open>A registration that outlives its entry\<close>

text \<open>
  C4. \<^verbatim>\<open>set(k, v1, 10)\<close> at instant 0 posts the registration of \<open>k\<close> for instant 10; \<^verbatim>\<open>set(k, v2)\<close>
  with the default, unbounded TTL replaces the entry before that task runs. The task then
  registers \<open>k\<close> under 10 without looking at the entry, and arms the timer. Until the timer
  fires the store holds the replacement, which never expires; when it fires at instant 10
  the replacement is removed and \<^verbatim>\<open>has(k)\<close> is false.
\<close>

theorem stale_registration_removes_replacement:
  "(let c = run [Set ''k'' (VString ''v1'') (Some (Fin 10)) 0, Set ''k'' (VString ''v2'') None 0,
                 Immediate 0]
              (Cache \<lparr>opt_ttl = None, opt_maxItems = None, opt_maxMemoryInMb = None\<rparr>);
        c' = step (Timers 10) c
    in map_get (data c) ''k'' = Some \<lparr>size_bytes = 2, stored = VString ''v2'', expiresAt = PInf\<rparr>
       \<and> has ''k'' 9 c = True
       \<and> timeout_tree c = [(10, [''k''])] \<and> timers c = [(0, 10)]
       \<and> data c' = [] \<and> has ''k'' 10 c' = False \<and> fst (get ''k'' 10 c') = None)"
  by code_simp

subsection \<open>Entries that have expired but are still stored\<close>

lemma length_map_delete:
  "distinct (keys m) \<Longrightarrow> map_get m k = Some e \<Longrightarrow> length m = Suc (length (map_delete k m))"
proof (induction m)
  case Nil
  then show ?case by simp
next
  case (Cons p m)
  show ?case
  proof (cases "fst p = k")
    case True
    with Cons.prems have "map_get m k = None" by (simp add: map_get_None_iff)
    then show ?thesis using True by (simp add: map_delete_absent)
  next
    case False
    with Cons show ?thesis by simp
  qed
qed

lemma map_get_set_cache:
  "map_get (data (set_cache key v t now c)) key =
     Some \<lparr>size_bytes = measureSize v, stored = v,
           expiresAt = plus_number (Fin now) (case t of None \<Rightarrow> ttl c | Some t' \<Rightarrow> t')\<rparr>"
proof -
  have "\<And>m e. map_get m key = None \<Longrightarrow> map_get (m @ [(key, e)]) key = Some e"
    by (simp add: map_get_def map_add_Some_iff)
  then show ?thesis
    by (simp add: data_set_cache map_get_map_delete)
qed

text \<open>
  C10. In every state an instance can reach, an entry whose \<^verbatim>\<open>expiresAt\<close> is at or before the
  clock but which is still in the store is reported absent by \<^verbatim>\<open>has\<close> and by \<^verbatim>\<open>get\<close> (which
  leaves the state as it is), while \<^verbatim>\<open>size\<close> counts it and the memory counter includes its
  size. An entry that \<^verbatim>\<open>set\<close> stores with a finite TTL of zero or less is in that condition
  from the instant of the call.
\<close>

theorem expired_entry_still_counted:
  "(map_get (data (run es (Cache opts))) key = Some entry \<and> expiresAt entry = Fin t \<and> t \<le> now
    \<longrightarrow> has key now (run es (Cache opts)) = False
      \<and> get key now (run es (Cache opts)) = (None, run es (Cache opts))
      \<and> size_cache (run es (Cache opts)) = Suc (length (map_delete key (data (run es (Cache opts)))))
      \<and> memory_current (run es (Cache opts))
          = of_nat (size_bytes entry)
            + of_nat (stored_bytes (map_delete key (data (run es (Cache opts))))))
   \<and> ((case targ of None \<Rightarrow> ttl c | Some t' \<Rightarrow> t') = Fin d \<and> d \<le> 0 \<and> now0 \<le> now'
    \<longrightarrow> map_get (data (set_cache key v targ now0 c)) key
          = Some \<lparr>size_bytes = measureSize v, stored = v, expiresAt = Fin (now0 + d)\<rparr>
      \<and> has key now' (set_cache key v targ now0 c) = False
      \<and> fst (get key now' (set_cache key v targ now0 c)) = None)"
proof (intro conjI impI)
  assume a: "map_get (data (run es (Cache opts))) key = Some entry \<and> expiresAt entry = Fin t \<and> t \<le> now"
  let ?c = "run es (Cache opts)"
  have ok: "store_ok ?c" by (rule run_store_ok [OF Cache_store_ok])
  show "has key now ?c = False" using a by (simp add: has_def)
  show "get key now ?c = (None, ?c)" using a by (simp add: get_def)
  show "size_cache ?c = Suc (length (map_delete key (data ?c)))"
    using ok a length_map_delete [of "data ?c" key entry] by (simp add: store_ok_def size_cache_def)
  show "memory_current ?c = of_nat (size_bytes entry) + of_nat (stored_bytes (map_delete key (data ?c)))"
    using ok a stored_bytes_map_delete [of "data ?c" key entry]
    by (simp add: store_ok_def)
next
  assume b: "(case targ of None \<Rightarrow> ttl c | Some t' \<Rightarrow> t') = Fin d \<and> d \<le> 0 \<and> now0 \<le> now'"
  then show e: "map_get (data (set_cache key v targ now0 c)) key
          = Some \<lparr>size_bytes = measureSize v, stored = v, expiresAt = Fin (now0 + d)\<rparr>"
    by (simp add: map_get_set_cache)
  show "has key now' (set_cache key v targ now0 c) = False"
    using b e by (simp add: has_def)
  show "fst (get key now' (set_cache key v targ now0 c)) = None"
    using b e by (simp add: get_def)
qed

theorem expired_entry_still_counted_witness:
  "(let c = run [Set ''k'' (VString ''abc'') (Some (Fin (- 5))) 100]
              (Cache \<lparr>opt_ttl = None, opt_maxItems = None, opt_maxMemoryInMb = None\<rparr>)
    in map_get (data c) ''k'' = Some \<lparr>size_bytes = 3, stored = VString ''abc'', expiresAt = Fin 95\<rparr>
       \<and> has ''k'' 100 c = False \<and> get ''k'' 100 c = (None, c)
       \<and> size_cache c = 1 \<and> memory_current c = 3)"
proof -
  let ?o = "\<lparr>opt_ttl = None, opt_maxItems = None, opt_maxMemoryInMb = None\<rparr>"
  let ?es = "[Set ''k'' (VString ''abc'') (Some (Fin (- 5))) 100]"
  let ?c = "run ?es (Cache ?o) :: string cache"
  have e: "map_get (data ?c) ''k'' = Some \<lparr>size_bytes = 3, stored = VString ''abc'', expiresAt = Fin 95\<rparr>"
    by code_simp
  have d: "map_delete ''k'' (data ?c) = []" by code_simp
  from expired_entry_still_counted
         [where es = ?es and opts = ?o and key = "''k''" and t = 95 and now = 100
            and entry = "\<lparr>size_bytes = 3, stored = VString ''abc'', expiresAt = Fin 95\<rparr>"
            and targ = "Some (Fin (- 5))" and c = "Cache ?o" and d = "- 5" and ?now0.0 = 100
            and now' = 100 and v = "VString ''abc''"]
       e d
  show ?thesis by (simp add: Let_def)
qed

subsection \<open>The store iterates in recency order\<close>

lemma remdups_move_to_end:
  "remdups (filter (\<lambda>x. x \<noteq> k) xs @ k # ts) = remdups (xs @ k # ts)"
  by (induction xs) auto

lemma remdups_thinned:
  "(\<forall>y\<in>set ks. P y \<longrightarrow> Q y \<or> y \<in> set ts) \<Longrightarrow>
   filter P (remdups (filter Q ks @ ts)) = filter P (remdups (ks @ ts))"
proof (induction ks)
  case Nil
  then show ?case by simp
next
  case (Cons x ks)
  then have ih: "filter P (remdups (filter Q ks @ ts)) = filter P (remdups (ks @ ts))"
    by simp
  show ?case
  proof (cases "Q x")
    case True
    then show ?thesis using ih by simp
  next
    case False
    with Cons.prems have "P x \<longrightarrow> x \<in> set ts" by simp
    then show ?thesis using False ih by auto
  qed
qed

lemma drop_as_filter:
  "distinct ks \<Longrightarrow> drop n ks = filter (\<lambda>k. k \<in> set (drop n ks)) ks"
proof -
  assume d: "distinct ks"
  have "ks = take n ks @ drop n ks" by simp
  moreover from d have "set (take n ks) \<inter> set (drop n ks) = {}"
    by (metis append_take_drop_id distinct_append)
  then have "filter (\<lambda>k. k \<in> set (drop n ks)) (take n ks) = []"
    by (auto simp: filter_empty_conv)
  moreover have "filter (\<lambda>k. k \<in> set (drop n ks)) (drop n ks) = drop n ks"
    by simp
  ultimately show ?thesis
    by (metis append_Nil filter_append)
qed

lemma prune_loop_suffix: "\<exists>n. fst (prune_loop mi mm m cur) = drop n m"
proof (induction mi mm m cur rule: prune_loop.induct)
  case (1 mi mm cur)
  then show ?case by simp
next
  case (2 mi mm key entry rest cur)
  show ?case
  proof (cases "lt (Fin (of_nat (length ((key, entry) # rest)))) mi \<and> lt (Fin cur) mm")
    case True
    then have "fst (prune_loop mi mm ((key, entry) # rest) cur) = drop 0 ((key, entry) # rest)"
      by simp
    then show ?thesis by blast
  next
    case False
    from "2.IH" [OF False] obtain n
      where "fst (prune_loop mi mm rest (cur - of_nat (size_bytes entry))) = drop n rest"
      by blast
    with False have "fst (prune_loop mi mm ((key, entry) # rest) cur)
                       = drop (Suc n) ((key, entry) # rest)"
      by auto
    then show ?thesis by blast
  qed
qed

lemma keys_drop: "keys (drop n m) = drop n (keys m)"
  by (simp add: keys_def drop_map)

lemma prune_evicts_prefix: "\<exists>n. keys (data (prune c)) = drop n (keys (data c))"
proof -
  obtain n where "fst (prune_loop (maxItems c) (memory_max c) (data c) (memory_current c))
                    = drop n (data c)"
    using prune_loop_suffix by blast
  then have "keys (data (prune c)) = drop n (keys (data c))"
    by (simp add: prune_def Let_def keys_drop)
  then show ?thesis by blast
qed

lemma keys_reap: "keys (fst (reap ks m cur)) = filter (\<lambda>k. k \<notin> set ks) (keys m)"
proof (induction ks arbitrary: m cur)
  case Nil
  then show ?case by simp
next
  case (Cons key ks)
  show ?case
  proof (cases "map_get m key")
    case None
    then have "key \<notin> set (keys m)" by (simp add: map_get_None_iff)
    then have "filter (\<lambda>k. k \<notin> set (key # ks)) (keys m) = filter (\<lambda>k. k \<notin> set ks) (keys m)"
      by (auto intro: filter_cong)
    then show ?thesis using None Cons.IH by simp
  next
    case (Some e)
    have "filter (\<lambda>k. k \<notin> set ks) (filter (\<lambda>k'. k' \<noteq> key) (keys m))
            = filter (\<lambda>k. k \<notin> set (key # ks)) (keys m)"
      by (auto intro: filter_cong)
    then show ?thesis using Some Cons.IH by (simp add: keys_map_delete)
  qed
qed

lemma keys_expire_loop:
  "\<exists>Q. keys (fst (snd (expire_loop now tr m cur))) = filter Q (keys m)"
proof (induction tr arbitrary: m cur)
  case Nil
  have "keys m = filter (\<lambda>k. True) (keys m)" by simp
  then show ?case by (metis expire_loop.simps(1) fst_conv snd_conv)
next
  case (Cons b tr)
  obtain t ks where b: "b = (t, ks)" by (cases b)
  show ?case
  proof (cases "t \<le> now")
    case True
    obtain m' cur' where r: "reap ks m cur = (m', cur')" by (cases "reap ks m cur")
    then have k: "keys m' = filter (\<lambda>k. k \<notin> set ks) (keys m)"
      using keys_reap [of ks m cur] by simp
    from Cons.IH [of m' cur'] obtain Q
      where "keys (fst (snd (expire_loop now tr m' cur'))) = filter Q (keys m')" by blast
    with k have "keys (fst (snd (expire_loop now (b # tr) m cur)))
                   = filter (\<lambda>k. k \<notin> set ks \<and> Q k) (keys m)"
      using True b r by simp
    then show ?thesis by blast
  next
    case False
    have "keys m = filter (\<lambda>k. True) (keys m)" by simp
    with False b show ?thesis by (metis expire_loop.simps(2) fst_conv snd_conv)
  qed
qed

lemma keys_onKeyExpired: "\<exists>Q. keys (data (onKeyExpired now c)) = filter Q (keys (data c))"
  using keys_expire_loop [of now "timeout_tree c" "data c" "memory_current c"]
  by (simp add: onKeyExpired_def Let_def)

lemma keys_get:
  "keys (data (snd (get key now c))) =
     (case fst (get key now c) of
        None \<Rightarrow> keys (data c)
      | Some v \<Rightarrow> filter (\<lambda>k. k \<noteq> key) (keys (data c)) @ [key])"
  by (simp add: get_def map_set_after_delete keys_map_delete split: option.splits)

lemma keys_set_cache:
  "keys (data (set_cache key v t now c)) = filter (\<lambda>k. k \<noteq> key) (keys (data c)) @ [key]"
  by (simp add: data_set_cache keys_map_delete)

text \<open>An event that touches no key only removes keys from the iteration order.\<close>

lemma keys_step_untouched:
  assumes "distinct (keys (data c))" "touched e c = []"
  shows "\<exists>Q. keys (data (step e c)) = filter Q (keys (data c))"
proof -
  have same: "\<And>c' :: 'a cache. data c' = data c \<Longrightarrow> \<exists>Q. keys (data c') = filter Q (keys (data c))"
  proof -
    fix c' :: "'a cache"
    assume "data c' = data c"
    then have "keys (data c') = filter (\<lambda>k. True) (keys (data c))" by simp
    then show "\<exists>Q. keys (data c') = filter Q (keys (data c))" by blast
  qed
  show ?thesis
  proof (cases e)
    case (Set k v t now)
    with assms show ?thesis by simp
  next
    case (Get k now)
    with assms(2) have "fst (get k now c) = None" by (simp split: option.splits)
    then have "data (snd (get k now c)) = data c"
      by (simp add: get_def split: option.splits if_splits)
    then show ?thesis using Get same by simp
  next
    case (Has k now)
    then show ?thesis using same by simp
  next
    case (Delete k now)
    then have "keys (data (step e c)) = filter (\<lambda>k'. k' \<noteq> k) (keys (data c))"
      by (simp add: data_delete keys_map_delete)
    then show ?thesis by blast
  next
    case Clear
    then have "keys (data (step e c)) = filter (\<lambda>k. False) (keys (data c))"
      by (simp add: clear_def)
    then show ?thesis by blast
  next
    case (Immediate now)
    show ?thesis
    proof (cases "immediates c")
      case Nil
      then show ?thesis using Immediate same by (simp add: run_immediate_def)
    next
      case (Cons task q)
      show ?thesis
      proof (cases task)
        case PruneTask
        obtain n where "keys (data (prune (c\<lparr>immediates := q\<rparr>))) = drop n (keys (data c))"
          using prune_evicts_prefix [of "c\<lparr>immediates := q\<rparr>"] by auto
        then have "keys (data (step e c))
                     = filter (\<lambda>k. k \<in> set (drop n (keys (data c)))) (keys (data c))"
          using Immediate Cons PruneTask drop_as_filter [OF assms(1), of n]
          by (simp add: run_immediate_def)
        then show ?thesis by blast
      next
        case (AddTTLTask k t)
        have "data (addTTL k t now (c\<lparr>immediates := q\<rparr>)) = data c"
          by (simp add: addTTL_def Let_def)
        then show ?thesis using Immediate Cons AddTTLTask same by (simp add: run_immediate_def)
      qed
    qed
  next
    case (Timers now)
    show ?thesis
    proof (cases "filter (\<lambda>p. snd p \<le> now) (timers c)")
      case Nil
      then show ?thesis using Timers same by (simp add: run_timers_def)
    next
      case (Cons p ps)
      obtain h due where p: "p = (h, due)" by (cases p)
      from keys_onKeyExpired [of now "c\<lparr>timers := filter (\<lambda>p. fst p \<noteq> h) (timers c)\<rparr>"]
      show ?thesis using Timers Cons p by (simp add: run_timers_def)
    qed
  qed
qed

text \<open>An event that touches a key moves it to the newest position.\<close>

lemma keys_step_touched:
  assumes "touched e c = k # ks"
  shows "ks = [] \<and> keys (data (step e c)) = filter (\<lambda>k'. k' \<noteq> k) (keys (data c)) @ [k]"
proof (cases e)
  case (Set k' v t now)
  with assms show ?thesis by (simp add: keys_set_cache)
next
  case (Get k' now)
  with assms show ?thesis by (auto simp: keys_get split: option.splits)
qed (use assms in simp_all)

lemma keys_run_subset:
  "set (keys (data (run es c))) \<subseteq> set (keys (data c)) \<union> set (touches es c)"
proof (induction es arbitrary: c)
  case Nil
  then show ?case by simp
next
  case (Cons e es)
  have "set (keys (data (step e c))) \<subseteq> set (keys (data c)) \<union> set (touched e c)"
  proof (cases e)
    case (Set k v t now)
    then show ?thesis by (auto simp: keys_set_cache)
  next
    case (Get k now)
    then show ?thesis by (auto simp: keys_get split: option.splits)
  next
    case (Has k now)
    then show ?thesis by simp
  next
    case (Delete k now)
    then show ?thesis by (auto simp: data_delete keys_map_delete)
  next
    case Clear
    then show ?thesis by (simp add: clear_def)
  next
    case (Immediate now)
    have "\<And>q. set (keys (data (prune (c\<lparr>immediates := q\<rparr>)))) \<subseteq> set (keys (data c))"
    proof -
      fix q
      obtain n where "keys (data (prune (c\<lparr>immediates := q\<rparr>))) = drop n (keys (data c))"
        using prune_evicts_prefix [of "c\<lparr>immediates := q\<rparr>"] by auto
      then show "set (keys (data (prune (c\<lparr>immediates := q\<rparr>)))) \<subseteq> set (keys (data c))"
        by (simp add: set_drop_subset)
    qed
    moreover have "\<And>k t q. data (addTTL k t now (c\<lparr>immediates := q\<rparr>)) = data c"
      by (simp add: addTTL_def Let_def)
    ultimately show ?thesis using Immediate
      by (auto simp: run_immediate_def split: list.splits task.splits)
  next
    case (Timers now)
    have "\<And>q. set (keys (data (onKeyExpired now (c\<lparr>timers := q\<rparr>)))) \<subseteq> set (keys (data c))"
    proof -
      fix q
      obtain Q where "keys (data (onKeyExpired now (c\<lparr>timers := q\<rparr>))) = filter Q (keys (data c))"
        using keys_onKeyExpired [of now "c\<lparr>timers := q\<rparr>"] by auto
      then show "set (keys (data (onKeyExpired now (c\<lparr>timers := q\<rparr>)))) \<subseteq> set (keys (data c))"
        by simp
    qed
    then show ?thesis using Timers
      by (auto simp: run_timers_def split: list.splits)
  qed
  with Cons.IH [of "step e c"] show ?case by auto
qed

lemma keys_run_recency:
  "store_ok c \<Longrightarrow>
   keys (data (run es c)) =
     filter (\<lambda>k. k \<in> set (keys (data (run es c)))) (remdups (keys (data c) @ touches es c))"
proof (induction es arbitrary: c)
  case Nil
  then show ?case by (simp add: store_ok_def distinct_remdups_id)
next
  case (Cons e es)
  let ?c' = "step e c"
  let ?F = "\<lambda>k. k \<in> set (keys (data (run es ?c')))"
  let ?ts = "touches es ?c'"
  from Cons.prems have ok': "store_ok ?c'" by (rule step_store_ok)
  from Cons.prems have d: "distinct (keys (data c))" by (simp add: store_ok_def)
  from Cons.IH [OF ok']
  have ih: "keys (data (run es ?c')) = filter ?F (remdups (keys (data ?c') @ ?ts))" .
  have "filter ?F (remdups (keys (data ?c') @ ?ts))
          = filter ?F (remdups (keys (data c) @ touched e c @ ?ts))"
  proof (cases "touched e c")
    case Nil
    from keys_step_untouched [OF d Nil] obtain Q
      where q: "keys (data ?c') = filter Q (keys (data c))" by blast
    have "\<forall>y\<in>set (keys (data c)). ?F y \<longrightarrow> Q y \<or> y \<in> set ?ts"
      using keys_run_subset [of es ?c'] q by auto
    from remdups_thinned [OF this] show ?thesis using q Nil by simp
  next
    case (Cons k ks)
    from keys_step_touched [OF Cons]
    have "ks = []" "keys (data ?c') = filter (\<lambda>k'. k' \<noteq> k) (keys (data c)) @ [k]"
      by simp_all
    then show ?thesis using Cons remdups_move_to_end [of k "keys (data c)" ?ts] by simp
  qed
  with ih show ?case by simp
qed

text \<open>
  C3. Whatever events have run (calls of \<^verbatim>\<open>set\<close> and \<^verbatim>\<open>get\<close>, and any other call, deferred task
  or timer in between), the keys of the entry store iterate in recency order, oldest
  first: they are the keys still stored, in the order of their last touch. A \<^verbatim>\<open>get\<close> that
  returns a value moves its key to the newest position and any other \<^verbatim>\<open>get\<close> leaves the
  order alone. A prune pass evicts a prefix of that order, so the keys it evicts are the
  least recently touched ones, oldest first.
\<close>

theorem store_order_is_recency_order:
  "keys (data (run es (Cache opts)))
     = filter (\<lambda>k. k \<in> set (keys (data (run es (Cache opts)))))
         (recency_order (touches es (Cache opts)))
   \<and> keys (data (snd (get key now c)))
       = (case fst (get key now c) of
            None \<Rightarrow> keys (data c)
          | Some v \<Rightarrow> filter (\<lambda>k. k \<noteq> key) (keys (data c)) @ [key])
   \<and> (\<exists>n. keys (data (prune c)) = drop n (keys (data c)))"
proof -
  have "data (Cache opts :: 'a cache) = []" by (simp add: Cache_def)
  with keys_run_recency [OF Cache_store_ok, of es opts]
  have "keys (data (run es (Cache opts) :: 'a cache))
     = filter (\<lambda>k. k \<in> set (keys (data (run es (Cache opts) :: 'a cache))))
         (recency_order (touches es (Cache opts)))"
    by (simp add: recency_order_def)
  then show ?thesis using keys_get [of key now c] prune_evicts_prefix [of c] by blast
qed

subsection \<open>The expiry index stays ordered\<close>

lemma tree_get_None_iff: "tree_get tr t = None \<longleftrightarrow> t \<notin> fst ` set tr"
  by (induction tr) (auto split: if_splits)

lemma tree_get_Some_mem: "tree_get tr t = Some ks \<Longrightarrow> (t, ks) \<in> set tr"
  by (induction tr) (auto split: if_splits)

lemma tree_put_keys: "map fst (tree_put t ks tr) = map fst tr"
  by (induction tr) auto


lemma tree_insert_keys: "set (map fst (tree_insert t ks tr)) = insert t (set (map fst tr))"
proof (induction tr)
  case Nil
  then show ?case by simp
next
  case (Cons b tr)
  obtain t0 ks0 where "b = (t0, ks0)" by (cases b)
  with Cons.IH show ?case by (simp add: insert_commute)
qed

lemma tree_ok_Cons:
  "tree_ok (b # tr) \<longleftrightarrow> (\<forall>b'\<in>set tr. fst b < fst b') \<and> tree_ok tr"
  by (auto simp: tree_ok_def)

lemma tree_insert_ok:
  "tree_ok tr \<Longrightarrow> t \<notin> fst ` set tr \<Longrightarrow> tree_ok (tree_insert t ks tr)"
proof (induction tr)
  case Nil
  then show ?case by (simp add: tree_ok_def)
next
  case (Cons b tr)
  obtain t' ks' where b: "b = (t', ks')" by (cases b)
  show ?case
  proof (cases "t < t'")
    case True
    with Cons.prems b have "\<forall>b'\<in>set (b # tr). t < fst b'"
      by (auto simp: tree_ok_Cons)
    with Cons.prems(1) True b show ?thesis by (simp add: tree_ok_Cons)
  next
    case False
    with Cons.prems b have lt: "t' < t" by auto
    from Cons.prems have "tree_ok (tree_insert t ks tr)"
      by (intro Cons.IH) (auto simp: tree_ok_Cons)
    moreover have "\<forall>b'\<in>set (tree_insert t ks tr). t' < fst b'"
    proof
      fix b' assume "b' \<in> set (tree_insert t ks tr)"
      then have "fst b' \<in> insert t (set (map fst tr))"
        using tree_insert_keys [of t ks tr] by (metis image_eqI set_map)
      with lt Cons.prems(1) b show "t' < fst b'" by (auto simp: tree_ok_Cons)
    qed
    ultimately show ?thesis using False b by (simp add: tree_ok_Cons)
  qed
qed


lemma tree_remove_subset: "set (tree_remove t tr) \<subseteq> set tr"
  by (induction tr) (auto split: if_splits)

lemma tree_remove_ok: "tree_ok tr \<Longrightarrow> tree_ok (tree_remove t tr)"
proof (induction tr)
  case Nil
  then show ?case by simp
next
  case (Cons b tr)
  obtain t0 ks0 where b: "b = (t0, ks0)" by (cases b)
  from Cons.prems have lo: "\<forall>b'\<in>set tr. fst b < fst b'" and ok: "tree_ok tr"
    by (simp_all add: tree_ok_Cons)
  show ?case
  proof (cases "t0 = t")
    case True
    with b ok show ?thesis by simp
  next
    case False
    from lo tree_remove_subset [of t tr] have "\<forall>b'\<in>set (tree_remove t tr). fst b < fst b'"
      by blast
    with False b Cons.IH [OF ok] show ?thesis by (simp add: tree_ok_Cons)
  qed
qed


lemma tree_ok_Nil [simp]: "tree_ok []"
  by (simp add: tree_ok_def)

lemma tree_put_ok: "tree_ok tr \<Longrightarrow> tree_ok (tree_put t ks tr)"
  by (simp add: tree_ok_def tree_put_keys)

lemma expire_loop_suffix: "\<exists>n. fst (expire_loop now tr m cur) = drop n tr"
proof (induction tr arbitrary: m cur)
  case Nil
  then show ?case by simp
next
  case (Cons b tr)
  obtain t ks where b: "b = (t, ks)" by (cases b)
  show ?case
  proof (cases "t \<le> now")
    case True
    obtain m' cur' where r: "reap ks m cur = (m', cur')" by (cases "reap ks m cur")
    from Cons.IH [of m' cur'] obtain n
      where "fst (expire_loop now tr m' cur') = drop n tr" by blast
    with True b r have "fst (expire_loop now (b # tr) m cur) = drop (Suc n) (b # tr)" by simp
    then show ?thesis by blast
  next
    case False
    with b have "fst (expire_loop now (b # tr) m cur) = drop 0 (b # tr)" by simp
    then show ?thesis by blast
  qed
qed

lemma tree_ok_drop: "tree_ok tr \<Longrightarrow> tree_ok (drop n tr)"
  by (simp add: tree_ok_def drop_map [symmetric])

lemma scheduleNextTimer_tree_ok:
  "tree_ok (timeout_tree c) \<Longrightarrow> tree_ok (timeout_tree (scheduleNextTimer now c))"
  by simp

lemma delete_tree_ok: "tree_ok (timeout_tree c) \<Longrightarrow> tree_ok (timeout_tree (delete key now c))"
  by (simp add: delete_def Let_def tree_remove_ok tree_put_ok split: option.splits number.splits)

lemma set_cache_tree_ok:
  "tree_ok (timeout_tree c) \<Longrightarrow> tree_ok (timeout_tree (set_cache key v t now c))"
  using delete_tree_ok [of c key now]
  by (simp add: set_cache_def Let_def split: number.splits)

lemma get_tree_ok: "tree_ok (timeout_tree c) \<Longrightarrow> tree_ok (timeout_tree (snd (get key now c)))"
  by (simp add: get_def split: option.splits)

lemma clear_tree_ok: "tree_ok (timeout_tree (clear c))"
  by (simp add: clear_def tree_ok_def)

lemma prune_tree_ok: "tree_ok (timeout_tree c) \<Longrightarrow> tree_ok (timeout_tree (prune c))"
  by (simp add: prune_def Let_def)

lemma addTTL_tree_ok: "tree_ok (timeout_tree c) \<Longrightarrow> tree_ok (timeout_tree (addTTL key t now c))"
  by (simp add: addTTL_def Let_def tree_put_ok tree_insert_ok tree_get_None_iff
      split: option.splits)

lemma onKeyExpired_tree_ok:
  "tree_ok (timeout_tree c) \<Longrightarrow> tree_ok (timeout_tree (onKeyExpired now c))"
proof -
  assume ok: "tree_ok (timeout_tree c)"
  obtain n where "fst (expire_loop now (timeout_tree c) (data c) (memory_current c))
                    = drop n (timeout_tree c)"
    using expire_loop_suffix by blast
  with ok show ?thesis by (simp add: onKeyExpired_def Let_def tree_ok_drop)
qed

lemma run_immediate_tree_ok:
  "tree_ok (timeout_tree c) \<Longrightarrow> tree_ok (timeout_tree (run_immediate now c))"
  by (simp add: run_immediate_def prune_tree_ok addTTL_tree_ok split: list.splits task.splits)

lemma run_timers_tree_ok:
  "tree_ok (timeout_tree c) \<Longrightarrow> tree_ok (timeout_tree (run_timers now c))"
  by (simp add: run_timers_def onKeyExpired_tree_ok split: list.splits)

lemma step_tree_ok: "tree_ok (timeout_tree c) \<Longrightarrow> tree_ok (timeout_tree (step e c))"
  by (cases e) (simp_all add: set_cache_tree_ok get_tree_ok delete_tree_ok clear_tree_ok
      run_immediate_tree_ok run_timers_tree_ok)

lemma run_tree_ok: "tree_ok (timeout_tree c) \<Longrightarrow> tree_ok (timeout_tree (run es c))"
  by (induction es arbitrary: c) (simp_all add: step_tree_ok)

lemma Cache_tree_ok: "tree_ok (timeout_tree (Cache opts))"
  by (simp add: Cache_def tree_ok_def)

subsection \<open>Expiry: the liveness test and the reaping of due buckets\<close>

lemma map_get_reap:
  "map_get (fst (reap ks m cur)) k = (if k \<in> set ks then None else map_get m k)"
proof (induction ks arbitrary: m cur)
  case Nil
  then show ?case by simp
next
  case (Cons key ks)
  show ?case
  proof (cases "map_get m key")
    case None
    with Cons.IH [of m cur] show ?thesis by auto
  next
    case (Some e)
    with Cons.IH [of "map_delete key m" "cur - of_nat (size_bytes e)"] show ?thesis
      by (auto simp: map_get_map_delete)
  qed
qed

lemma map_get_expire_loop_None:
  "map_get m k = None \<Longrightarrow> map_get (fst (snd (expire_loop now tr m cur))) k = None"
proof -
  assume "map_get m k = None"
  then have "k \<notin> set (keys m)" by (simp add: map_get_None_iff)
  moreover obtain Q where "keys (fst (snd (expire_loop now tr m cur))) = filter Q (keys m)"
    using keys_expire_loop by blast
  ultimately have "k \<notin> set (keys (fst (snd (expire_loop now tr m cur))))" by simp
  then show ?thesis by (simp add: map_get_None_iff)
qed

lemma expire_loop_reaps:
  "tree_ok tr \<Longrightarrow> tree_get tr t = Some ks \<Longrightarrow> k \<in> set ks \<Longrightarrow> t \<le> now \<Longrightarrow>
   map_get (fst (snd (expire_loop now tr m cur))) k = None"
proof (induction tr arbitrary: m cur)
  case Nil
  then show ?case by simp
next
  case (Cons b tr)
  obtain t0 ks0 where b: "b = (t0, ks0)" by (cases b)
  obtain m' cur' where r: "reap ks0 m cur = (m', cur')" by (cases "reap ks0 m cur")
  from Cons.prems(1) have lo: "\<forall>b'\<in>set tr. t0 < fst b'" and ok: "tree_ok tr"
    using b by (simp_all add: tree_ok_Cons)
  show ?case
  proof (cases "t0 = t")
    case True
    with Cons.prems b have "ks0 = ks" "t0 \<le> now" by simp_all
    moreover from this r Cons.prems(3) have "map_get m' k = None"
      using map_get_reap [of ks0 m cur k] by simp
    ultimately show ?thesis using b r by (simp add: map_get_expire_loop_None)
  next
    case False
    with Cons.prems(2) b have g: "tree_get tr t = Some ks" by simp
    then have "(t, ks) \<in> set tr" by (rule tree_get_Some_mem)
    with lo have "t0 < t" by auto
    with Cons.prems(4) have "t0 \<le> now" by simp
    with Cons.IH [OF ok g Cons.prems(3) Cons.prems(4), of m' cur'] b r show ?thesis by simp
  qed
qed

text \<open>What the timer callback does to a due bucket, in every state an instance can reach:
  each key of the bucket leaves the store, and the counter stays the sum of the stored
  sizes.\<close>

lemma onKeyExpired_reaps_due_bucket:
  "tree_get (timeout_tree (run es (Cache opts))) t = Some ks \<Longrightarrow> key \<in> set ks \<Longrightarrow> t \<le> now \<Longrightarrow>
   map_get (data (onKeyExpired now (run es (Cache opts)))) key = None
   \<and> memory_current (onKeyExpired now (run es (Cache opts)))
       = of_nat (stored_bytes (data (onKeyExpired now (run es (Cache opts)))))"
proof -
  let ?c = "run es (Cache opts)"
  assume a: "tree_get (timeout_tree ?c) t = Some ks" "key \<in> set ks" "t \<le> now"
  have "tree_ok (timeout_tree ?c)" by (rule run_tree_ok [OF Cache_tree_ok])
  with a have "map_get (fst (snd (expire_loop now (timeout_tree ?c) (data ?c) (memory_current ?c))))
                 key = None"
    using expire_loop_reaps [of "timeout_tree ?c" t ks key now] by blast
  then have "map_get (data (onKeyExpired now ?c)) key = None"
    by (simp add: onKeyExpired_def Let_def)
  moreover have "store_ok (onKeyExpired now ?c)"
    by (rule onKeyExpired_store_ok [OF run_store_ok [OF Cache_store_ok]])
  ultimately show ?thesis by (simp add: store_ok_def)
qed

text \<open>
  C6. The class breaks the claim in both halves.

  First half: at instant 0, \<^verbatim>\<open>set(k, v1, 10)\<close> and then \<^verbatim>\<open>set(k, v2, 100)\<close>; both posted
  registrations run. The store holds \<open>v2\<close> with \<^verbatim>\<open>expiresAt = 100\<close> and \<^verbatim>\<open>has(k)\<close> is true at
  instant 9. The registration of the replaced entry has put \<open>k\<close> in the bucket for 10, so
  the timer at 10 removes \<open>v2\<close>: \<^verbatim>\<open>has(k)\<close> is false at instant 50, before \<^verbatim>\<open>expiresAt\<close>, with no
  \<^verbatim>\<open>delete\<close>, \<^verbatim>\<open>clear\<close> or prune in between.

  Second half: \<^verbatim>\<open>set(k, v, 10)\<close> at instant 0 is registered and reaped by the timer at 10,
  which empties the index and leaves \<^verbatim>\<open>#timeout.timestamp\<close> at 10. \<^verbatim>\<open>set(j, w, 10)\<close> at instant
  20 is registered under 30, and since 30 is not below the stale 10 no timer is armed.
  At instant 1000 the timer phase has nothing to fire: \<open>j\<close> is still in the store and
  still counted in the memory counter, long after its \<^verbatim>\<open>expiresAt\<close>.
\<close>

theorem live_entry_reaped_and_expired_entry_kept:
  "(let c = run [Set ''k'' (VString ''v1'') (Some (Fin 10)) 0,
                 Set ''k'' (VString ''v2'') (Some (Fin 100)) 0, Immediate 0, Immediate 0]
              (Cache \<lparr>opt_ttl = None, opt_maxItems = None, opt_maxMemoryInMb = None\<rparr>);
        c' = step (Timers 10) c
    in map_get (data c) ''k''
         = Some \<lparr>size_bytes = 2, stored = VString ''v2'', expiresAt = Fin 100\<rparr>
       \<and> has ''k'' 9 c = True
       \<and> timers c = [(0, 10)]
       \<and> data c' = [] \<and> has ''k'' 50 c' = False)
   \<and> (let c = run [Set ''k'' (VString ''v'') (Some (Fin 10)) 0, Immediate 0, Timers 10,
                   Set ''j'' (VString ''w'') (Some (Fin 10)) 20, Immediate 20]
                (Cache \<lparr>opt_ttl = None, opt_maxItems = None, opt_maxMemoryInMb = None\<rparr>);
          c' = step (Timers 1000) c
      in map_get (data c) ''j''
           = Some \<lparr>size_bytes = 1, stored = VString ''w'', expiresAt = Fin 30\<rparr>
         \<and> timeout_tree c = [(30, [''j''])]
         \<and> timeout_timestamp c = Fin 10
         \<and> timers c = []
         \<and> c' = c
         \<and> has ''j'' 1000 c' = False
         \<and> size_cache c' = 1 \<and> memory_current c' = 1)"
  by code_simp

subsection \<open>The store, the expiry index and the posted registrations\<close>






lemma in_bucket_Nil [simp]: "in_bucket [] t k = False"
  by (simp add: in_bucket_def)
































text \<open>
  The prune pass and the index. With \<^verbatim>\<open>maxItems = 2\<close>, once \<open>k\<close> is registered for instant 10
  and two more keys are set, the pass evicts \<open>k\<close> from the store and leaves it in the bucket
  for 10: \<^verbatim>\<open>#prune\<close> deletes from \<^verbatim>\<open>#data\<close> alone, where \<^verbatim>\<open>delete\<close> (and the \<^verbatim>\<open>#prune\<close> of
  \<^verbatim>\<open>src/unnamed/part_000\<close>, which calls \<^verbatim>\<open>this.delete(key)\<close>) also updates the tree.
\<close>

lemma prune_leaves_evicted_key_in_bucket:
  "(let c = run [Set ''k'' (VString ''v'') (Some (Fin 10)) 0, Immediate 0,
                 Set ''j'' (VString ''w'') None 0, Set ''l'' (VString ''x'') None 0, Immediate 0]
              (Cache \<lparr>opt_ttl = None, opt_maxItems = Some (Fin 2), opt_maxMemoryInMb = None\<rparr>)
    in map_get (data c) ''k'' = None
       \<and> tree_get (timeout_tree c) 10 = Some [''k'']
       \<and> immediates c = [])"
  by code_simp

subsection \<open>Deleting a key that is not stored\<close>

text \<open>
  C9. \<^verbatim>\<open>delete\<close> of a key that is not in the entry store returns and leaves the whole
  state as it was: entries, memory counter, expiry index, timer and queues.
\<close>

theorem delete_absent_noop:
  "map_get (data c) key = None \<Longrightarrow> delete key now c = c"
  by (simp add: delete_def)

theorem delete_absent_noop_witness:
  "(let c = run [Set ''k'' (VString ''v'') (Some (Fin 10)) 0, Immediate 0]
              (Cache \<lparr>opt_ttl = None, opt_maxItems = None, opt_maxMemoryInMb = None\<rparr>)
    in map_get (data c) ''z'' = None \<and> delete ''z'' 5 c = c
       \<and> timeout_tree c = [(10, [''k''])] \<and> timers c = [(0, 10)] \<and> memory_current c = 1)"
proof -
  let ?c = "run [Set ''k'' (VString ''v'') (Some (Fin 10)) 0, Immediate 0]
              (Cache \<lparr>opt_ttl = None, opt_maxItems = None, opt_maxMemoryInMb = None\<rparr>)
            :: string cache"
  have h: "map_get (data ?c) ''z'' = None" by code_simp
  have s: "timeout_tree ?c = [(10, [''k''])] \<and> timers ?c = [(0, 10)] \<and> memory_current ?c = 1"
    by code_simp
  from delete_absent_noop [OF h, of 5] h s show ?thesis by (simp add: Let_def)
qed

end
